theory Spec2Isabelle
  imports Complex_Main "HOL-Library.Multiset"
begin

section \<open>Verdict Arena: the contract of contracts/verdict\_arena.py\<close>

text \<open>
  The contract is a class whose fields are the persistent state, with three
  write methods (\<open>open_round\<close>, \<open>submit_argument\<close>, \<open>judge_all\<close>) and read-only
  views. Every Python exception is a value of type \<open>error\<close>; the two oracles
  (topic fetch, argument scoring) are inputs of the methods that call them.
\<close>

subsection \<open>Errors\<close>

text \<open>
  The first nine constructors are the assertions of the contract, named as the
  specification names them:
  \<^item> \<open>Unauthorized\<close>: "Only host can open rounds" (line 65), "Only host can trigger judging" (line 171);
  \<^item> \<open>RoundAlreadyOpen\<close>: "A round is already open" (line 66);
  \<^item> \<open>PeriodAlreadyPlayed\<close>: "Round for this week already played" (line 81);
  \<^item> \<open>RoundNotOpen\<close>: "No round is currently open" (line 138), "No open round to judge" (line 172);
  \<^item> \<open>AlreadyJudged\<close>: "Judging is already complete for this round" (line 139), "Already judged" (line 173);
  \<^item> \<open>InvalidSide\<close>: "side must be 'a' or 'b'" (line 140);
  \<^item> \<open>TextTooShort\<close>, \<open>TextTooLong\<close>: lines 141 and 142;
  \<^item> \<open>NoSubmissions\<close>: "No submissions to judge" (line 174).
  The next three are the failures of the consensus primitives. The rest are the
  Python exceptions that the methods can raise by themselves.
\<close>

datatype error =
    Unauthorized | RoundAlreadyOpen | PeriodAlreadyPlayed | RoundNotOpen
  | AlreadyJudged | InvalidSide | TextTooShort | TextTooLong | NoSubmissions
  | ConsensusDivergence | ConsensusRejected | OracleUnavailable
  | JSONDecodeError | KeyError | TypeError | ValueError | AttributeError
  | OverflowError

subsection \<open>Python's \<open>int\<close> on strings and JSON values\<close>

text \<open>
  The characters \<open>int\<close> drops around the digits, for a string of code points below
  256: tab, line feed, vertical tab, form feed, carriage return and space, and
  the two spaces above 127 (next line, 133, and no-break space, 160). The
  separators 28 to 31 are not dropped: \<open>int\<close> refuses a string that holds one.
\<close>

definition is_py_space :: "char \<Rightarrow> bool" where
  "is_py_space c = ((of_char c :: nat) \<in> {9, 10, 11, 12, 13, 32, 133, 160})"

definition is_digit :: "char \<Rightarrow> bool" where
  "is_digit c = (48 \<le> (of_char c :: nat) \<and> (of_char c :: nat) \<le> 57)"

definition digit_val :: "char \<Rightarrow> nat" where
  "digit_val c = of_char c - 48"

definition py_strip :: "string \<Rightarrow> string" where
  "py_strip s = rev (dropWhile is_py_space (rev (dropWhile is_py_space s)))"

text \<open>Decimal digits, with single underscores allowed between two digits.\<close>

fun int_digits :: "nat \<Rightarrow> string \<Rightarrow> nat option" where
  "int_digits acc [] = Some acc"
| "int_digits acc [c] = (if is_digit c then Some (acc * 10 + digit_val c) else None)"
| "int_digits acc (c # d # ds) =
     (if is_digit c then int_digits (acc * 10 + digit_val c) (d # ds)
      else if c = CHR ''_'' \<and> is_digit d then int_digits (acc * 10 + digit_val d) ds
      else None)"

text \<open>
  \<open>int(s)\<close> for a string of code points below 256: surrounding whitespace is dropped,
  one sign is allowed, the digits follow. More than 4300 digits are refused
  (the interpreter's limit on integer strings).
\<close>

definition py_int_unsigned :: "string \<Rightarrow> error + int" where
  "py_int_unsigned u =
     (case u of
        [] \<Rightarrow> Inl ValueError
      | c # cs \<Rightarrow>
          if \<not> is_digit c then Inl ValueError
          else (case int_digits 0 u of
                  None \<Rightarrow> Inl ValueError
                | Some n \<Rightarrow> if length (filter is_digit u) > 4300 then Inl ValueError
                            else Inr (int n)))"

definition py_int_str :: "string \<Rightarrow> error + int" where
  "py_int_str s =
     (case py_strip s of
        [] \<Rightarrow> Inl ValueError
      | c # cs \<Rightarrow>
          if c = CHR ''-'' then map_sum id uminus (py_int_unsigned cs)
          else if c = CHR ''+'' then py_int_unsigned cs
          else py_int_unsigned (c # cs))"

text \<open>
  The values \<open>json.loads\<close> returns. A float is a rational or one of the three
  special values that \<open>json.loads\<close> accepts (\<open>Infinity\<close>, \<open>-Infinity\<close>, \<open>NaN\<close>).
  An object is the list of its items; a key is looked up with \<open>map_of\<close>.
\<close>

datatype py_float = Finite rat | PosInf | NegInf | NaN

datatype json =
    JNull | JBool bool | JInt int | JFloat py_float | JStr string
  | JArr "json list" | JObj "(string \<times> json) list"

definition py_int :: "json \<Rightarrow> error + int" where
  "py_int v =
     (case v of
        JInt i \<Rightarrow> Inr i
      | JBool b \<Rightarrow> Inr (if b then 1 else 0)
      | JFloat (Finite q) \<Rightarrow> Inr (if q < 0 then - \<lfloor>- q\<rfloor> else \<lfloor>q\<rfloor>)
      | JFloat NaN \<Rightarrow> Inl ValueError
      | JFloat _ \<Rightarrow> Inl OverflowError
      | JStr s \<Rightarrow> py_int_str s
      | _ \<Rightarrow> Inl TypeError)"

subsection \<open>The ISO week of a timestamp (lines 69 to 79)\<close>

text \<open>\<open>datetime.date\<close> and \<open>isocalendar\<close>, as the standard library computes them.\<close>

definition is_leap :: "int \<Rightarrow> bool" where
  "is_leap year = (year mod 4 = 0 \<and> (year mod 100 \<noteq> 0 \<or> year mod 400 = 0))"

definition days_in_month :: "int \<Rightarrow> int \<Rightarrow> int" where
  "days_in_month year month =
     (if month = 2 then (if is_leap year then 29 else 28)
      else if month \<in> {4, 6, 9, 11} then 30 else 31)"

definition days_before_year :: "int \<Rightarrow> int" where
  "days_before_year year =
     (let y = year - 1 in y * 365 + y div 4 - y div 100 + y div 400)"

definition days_before_month :: "int \<Rightarrow> int \<Rightarrow> int" where
  "days_before_month year month =
     [0, 0, 31, 59, 90, 120, 151, 181, 212, 243, 273, 304, 334] ! nat month
       + (if month > 2 \<and> is_leap year then 1 else 0)"

definition ymd2ord :: "int \<Rightarrow> int \<Rightarrow> int \<Rightarrow> int" where
  "ymd2ord year month day = days_before_year year + days_before_month year month + day"

definition isoweek1monday :: "int \<Rightarrow> int" where
  "isoweek1monday year =
     (let firstday = ymd2ord year 1 1;
          firstweekday = (firstday + 6) mod 7;
          week1monday = firstday - firstweekday
      in if firstweekday > 3 then week1monday + 7 else week1monday)"

text \<open>\<open>datetime.date(year, month, day)\<close> raises \<open>ValueError\<close> outside the calendar.\<close>

definition valid_date :: "int \<Rightarrow> int \<Rightarrow> int \<Rightarrow> bool" where
  "valid_date year month day =
     (1 \<le> year \<and> year \<le> 9999 \<and> 1 \<le> month \<and> month \<le> 12
      \<and> 1 \<le> day \<and> day \<le> days_in_month year month)"

definition isocalendar :: "int \<Rightarrow> int \<Rightarrow> int \<Rightarrow> int \<times> int \<times> int" where
  "isocalendar year month day =
     (let today = ymd2ord year month day;
          week = (today - isoweek1monday year) div 7;
          wday = (today - isoweek1monday year) mod 7
      in if week < 0 then
           (year - 1, (today - isoweek1monday (year - 1)) div 7 + 1,
            (today - isoweek1monday (year - 1)) mod 7 + 1)
         else if week \<ge> 52 \<and> today \<ge> isoweek1monday (year + 1) then (year + 1, 1, wday + 1)
         else (year, week + 1, wday + 1))"

fun str_nat :: "nat \<Rightarrow> string" where
  "str_nat n =
     (if n < 10 then [char_of (48 + n)]
      else str_nat (n div 10) @ [char_of (48 + n mod 10)])"

text \<open>The format \<open>{iso[1]:02d}\<close>: at least two digits.\<close>

definition str_nat2 :: "nat \<Rightarrow> string" where
  "str_nat2 n = (if n < 10 then CHR ''0'' # str_nat n else str_nat n)"

definition week_of :: "string \<Rightarrow> error + string" where
  "week_of dt =
     (let date_part = take 10 dt in
      case py_int_str (take 4 date_part) of
        Inl e \<Rightarrow> Inl e
      | Inr year \<Rightarrow>
     (case py_int_str (take 2 (drop 5 date_part)) of
        Inl e \<Rightarrow> Inl e
      | Inr month \<Rightarrow>
     (case py_int_str (take 2 (drop 8 date_part)) of
        Inl e \<Rightarrow> Inl e
      | Inr day \<Rightarrow>
          if \<not> valid_date year month day then Inl ValueError
          else (case isocalendar year month day of
                  (iy, iw, _) \<Rightarrow> Inr (str_nat (nat iy) @ ''-W'' @ str_nat2 (nat iw))))))"

subsection \<open>Contract state and call context\<close>

text \<open>An address is a 20-byte account identifier, taken here as its numeric value.\<close>

type_synonym address = nat

text \<open>
  The persistent fields of the class. A \<open>TreeMap\<close> is a partial map; \<open>u256\<close> values
  are naturals below \<open>2 ^ 256\<close>, and storing a larger one fails.
\<close>

record state =
  current_week :: string
  current_topic :: string
  current_side_a :: string
  current_side_b :: string
  submissions :: "address \<rightharpoonup> string"
  scores :: "address \<rightharpoonup> nat"
  all_time_xp :: "address \<rightharpoonup> nat"
  player_list :: "address list"
  round_open :: bool
  judging_done :: bool
  host :: address

text \<open>\<open>TreeMap.get(key, default)\<close>.\<close>

definition tm_get :: "('k \<rightharpoonup> 'v) \<Rightarrow> 'k \<Rightarrow> 'v \<Rightarrow> 'v" where
  "tm_get m key dflt = (case m key of None \<Rightarrow> dflt | Some v \<Rightarrow> v)"

text \<open>\<open>gl.message\<close>: who calls, and the transaction's timestamp.\<close>

record message =
  sender_address :: address
  datetime :: string

definition init :: "message \<Rightarrow> state" where
  "init msg =
     \<lparr>current_week = '''', current_topic = '''', current_side_a = '''', current_side_b = '''',
      submissions = Map.empty, scores = Map.empty, all_time_xp = Map.empty,
      player_list = [], round_open = False, judging_done = False,
      host = sender_address msg\<rparr>"

text \<open>
  A write method runs on the fields and ends with a returned string or with an
  exception. Its outcome is the pair of the fields as the method has left them
  at that point and of the string or the exception: every assignment the method
  made before it raised is in the first component. The methods have no
  \<open>try\<close> and keep no copy of the fields, so nothing in them undoes an
  assignment.
\<close>

type_synonym outcome = "state \<times> (error + string)"

subsection \<open>\<open>open_round\<close> (lines 57 to 128)\<close>

text \<open>
  \<open>topic_data[key]\<close> assigned to a field of type \<open>str\<close>: the key must exist in
  an object, and the value must be a string.
\<close>

definition topic_field :: "json \<Rightarrow> string \<Rightarrow> error + string" where
  "topic_field topic_data key =
     (case topic_data of
        JObj kvs \<Rightarrow>
          (case map_of kvs key of
             None \<Rightarrow> Inl KeyError
           | Some (JStr v) \<Rightarrow> Inr v
           | Some _ \<Rightarrow> Inl TypeError)
      | _ \<Rightarrow> Inl TypeError)"

text \<open>Lines 118 to 120: \<open>del\<close> of a key that is absent raises \<open>KeyError\<close>.\<close>

fun clear_round :: "address list \<Rightarrow> state \<Rightarrow> state \<times> error option" where
  "clear_round [] s = (s, None)"
| "clear_round (addr # rest) s =
     (case submissions s addr of
        None \<Rightarrow> (s, Some KeyError)
      | Some _ \<Rightarrow>
          (let s1 = s\<lparr>submissions := (submissions s)(addr := None)\<rparr> in
           case scores s1 addr of
             None \<Rightarrow> (s1, Some KeyError)
           | Some _ \<Rightarrow> clear_round rest (s1\<lparr>scores := (scores s1)(addr := None)\<rparr>)))"

text \<open>Lines 122 and 123: pop until the list is empty.\<close>

function pop_all :: "address list \<Rightarrow> address list" where
  "pop_all xs = (if length xs > 0 then pop_all (butlast xs) else xs)"
  by pat_completeness auto
termination
  by (relation "measure length") auto

declare pop_all.simps [simp del]

text \<open>
  The topic oracle is the outcome of \<open>gl.eq_principle_strict_eq(fetch_topic)\<close>:
  a failure, or the agreed text, which \<open>fetch_topic\<close> produced with \<open>json.dumps\<close>
  and which is given here as the value \<open>json.loads\<close> reads back from it.
\<close>

definition open_round :: "message \<Rightarrow> error + json \<Rightarrow> state \<Rightarrow> outcome" where
  "open_round msg topic_oracle s =
     (if sender_address msg \<noteq> host s then (s, Inl Unauthorized)
      else if round_open s then (s, Inl RoundAlreadyOpen)
      else case week_of (datetime msg) of
        Inl e \<Rightarrow> (s, Inl e)
      | Inr week_str \<Rightarrow>
          if week_str = current_week s then (s, Inl PeriodAlreadyPlayed)
          else
            (let s1 = s\<lparr>current_week := week_str\<rparr> in
             case topic_oracle of
               Inl e \<Rightarrow> (s1, Inl e)
             | Inr topic_data \<Rightarrow>
            (case topic_field topic_data ''topic'' of
               Inl e \<Rightarrow> (s1, Inl e)
             | Inr t \<Rightarrow>
            (let s2 = s1\<lparr>current_topic := t\<rparr> in
             case topic_field topic_data ''side_a'' of
               Inl e \<Rightarrow> (s2, Inl e)
             | Inr a \<Rightarrow>
            (let s3 = s2\<lparr>current_side_a := a\<rparr> in
             case topic_field topic_data ''side_b'' of
               Inl e \<Rightarrow> (s3, Inl e)
             | Inr b \<Rightarrow>
            (let s4 = s3\<lparr>current_side_b := b\<rparr> in
             case clear_round (player_list s4) s4 of
               (s5, Some e) \<Rightarrow> (s5, Inl e)
             | (s5, None) \<Rightarrow>
                 (s5\<lparr>player_list := pop_all (player_list s5),
                     round_open := True, judging_done := False\<rparr>,
                  Inr (''Round '' @ week_str @ '' opened! Topic: '' @ current_topic s5))))))))"

subsection \<open>\<open>submit_argument\<close> (lines 131 to 153)\<close>

definition ascii_upper :: "char \<Rightarrow> char" where
  "ascii_upper c =
     (if 97 \<le> (of_char c :: nat) \<and> (of_char c :: nat) \<le> 122
      then char_of ((of_char c :: nat) - 32) else c)"

definition submit_argument :: "message \<Rightarrow> string \<Rightarrow> string \<Rightarrow> state \<Rightarrow> outcome" where
  "submit_argument msg side argument s =
     (if \<not> round_open s then (s, Inl RoundNotOpen)
      else if judging_done s then (s, Inl AlreadyJudged)
      else if side \<notin> set [''a'', ''b''] then (s, Inl InvalidSide)
      else if \<not> length argument \<ge> 20 then (s, Inl TextTooShort)
      else if \<not> length argument \<le> 600 then (s, Inl TextTooLong)
      else
        (let player = sender_address msg;
             s1 = (if submissions s player = None
                   then s\<lparr>player_list := player_list s @ [player]\<rparr> else s)
         in (s1\<lparr>submissions := (submissions s1)
                   (player \<mapsto> ''SIDE_'' @ map ascii_upper side @ ''::'' @ argument)\<rparr>,
             Inr ''Argument submitted! Wait for the host to call judge_all().'')))"

subsection \<open>\<open>judge_all\<close> (lines 156 to 250)\<close>

text \<open>\<open>raw.split("::", 1)\<close>: the text before the first \<open>::\<close>, and the rest if there is one.\<close>

fun split_once :: "string \<Rightarrow> string \<times> string option" where
  "split_once [] = ([], None)"
| "split_once [c] = ([c], None)"
| "split_once (c # d # cs) =
     (if c = CHR '':'' \<and> d = CHR '':'' then ([], Some cs)
      else (case split_once (d # cs) of (a, b) \<Rightarrow> (c # a, b)))"

text \<open>What the scoring prompt is built from.\<close>

record scoring_request =
  req_topic :: string
  req_position :: string
  req_argument :: string

definition request_of :: "string \<Rightarrow> string \<Rightarrow> string \<Rightarrow> string \<Rightarrow> scoring_request" where
  "request_of topic side_a side_b raw =
     (case split_once raw of
        (side_tag, rest) \<Rightarrow>
          \<lparr>req_topic = topic,
           req_position = (if side_tag = ''SIDE_A'' then side_a else side_b),
           req_argument = (case rest of Some a \<Rightarrow> a | None \<Rightarrow> '''')\<rparr>)"

text \<open>
  Lines 238 and 239: the score read from the parsed answer. A missing \<open>total\<close>
  is read as 0; the value goes through \<open>int\<close> and is clamped to 0..100.
\<close>

definition xp_of_scored :: "json \<Rightarrow> error + nat" where
  "xp_of_scored scored =
     (case scored of
        JObj kvs \<Rightarrow>
          (case py_int (case map_of kvs ''total'' of None \<Rightarrow> JInt 0 | Some v \<Rightarrow> v) of
             Inl e \<Rightarrow> Inl e
           | Inr t \<Rightarrow> Inr (nat (min (max t 0) 100)))
      | _ \<Rightarrow> Inl AttributeError)"

text \<open>
  The scoring oracle is the outcome of \<open>gl.eq_principle_prompt_non_comparative\<close>
  for the \<open>k\<close>-th scoring call of the invocation and its request: a failure, or
  the accepted text, given as what \<open>json.loads\<close> makes of it (\<open>None\<close> when it is
  not JSON).
\<close>

type_synonym score_oracle = "nat \<Rightarrow> scoring_request \<Rightarrow> error + json option"

fun judge_loop ::
  "score_oracle \<Rightarrow> nat \<Rightarrow> string \<Rightarrow> string \<Rightarrow> string \<Rightarrow> address list \<Rightarrow> state
     \<Rightarrow> state \<times> error option" where
  "judge_loop oracle k topic side_a side_b [] s = (s, None)"
| "judge_loop oracle k topic side_a side_b (player # rest) s =
     (let raw = tm_get (submissions s) player '''' in
      if raw = '''' then judge_loop oracle k topic side_a side_b rest s
      else
        (case oracle k (request_of topic side_a side_b raw) of
           Inl e \<Rightarrow> (s, Some e)
         | Inr None \<Rightarrow> (s, Some JSONDecodeError)
         | Inr (Some scored) \<Rightarrow>
        (case xp_of_scored scored of
           Inl e \<Rightarrow> (s, Some e)
         | Inr xp \<Rightarrow>
        (let s1 = s\<lparr>scores := (scores s)(player \<mapsto> xp)\<rparr>;
             current_all_time = tm_get (all_time_xp s1) player 0
         in if current_all_time + xp \<ge> 2 ^ 256 then (s1, Some OverflowError)
            else judge_loop oracle (Suc k) topic side_a side_b rest
                   (s1\<lparr>all_time_xp := (all_time_xp s1)(player \<mapsto> current_all_time + xp)\<rparr>)))))"

definition judge_all :: "message \<Rightarrow> score_oracle \<Rightarrow> state \<Rightarrow> outcome" where
  "judge_all msg oracle s =
     (if sender_address msg \<noteq> host s then (s, Inl Unauthorized)
      else if \<not> round_open s then (s, Inl RoundNotOpen)
      else if judging_done s then (s, Inl AlreadyJudged)
      else if \<not> length (player_list s) > 0 then (s, Inl NoSubmissions)
      else
        (case judge_loop oracle 0 (current_topic s) (current_side_a s) (current_side_b s)
                (player_list s) s of
           (s', Some e) \<Rightarrow> (s', Inl e)
         | (s', None) \<Rightarrow>
             (s'\<lparr>round_open := False, judging_done := True\<rparr>,
              Inr ''Judging complete! Call get_leaderboard() to see results.'')))"

subsection \<open>Views (lines 253 to 314)\<close>

text \<open>
  \<open>entries.sort(key=..., reverse=True)\<close>: descending by key, and stable (entries
  with equal keys keep their order).
\<close>

definition sort_desc :: "('a \<Rightarrow> nat) \<Rightarrow> 'a list \<Rightarrow> 'a list" where
  "sort_desc key xs = sort_key (\<lambda>e. - int (key e)) xs"

text \<open>A leaderboard entry: the keys \<open>address\<close>, \<open>xp\<close> (or \<open>lifetime_xp\<close>) and \<open>rank\<close>.\<close>

record entry =
  e_address :: address
  e_xp :: nat
  e_rank :: nat

definition add_rank :: "(address \<times> nat) list \<Rightarrow> entry list" where
  "add_rank entries =
     map (\<lambda>(i, (a, x)). \<lparr>e_address = a, e_xp = x, e_rank = i + 1\<rparr>) (enumerate 0 entries)"

definition leaderboard_entries :: "state \<Rightarrow> entry list" where
  "leaderboard_entries s =
     add_rank (sort_desc snd
       (map (\<lambda>player. (player, tm_get (scores s) player 0))
          (player_list s)))"

record leaderboard =
  lb_week :: string
  lb_topic :: string
  lb_leaderboard :: "entry list"

definition get_leaderboard :: "state \<Rightarrow> leaderboard" where
  "get_leaderboard s =
     \<lparr>lb_week = current_week s, lb_topic = current_topic s,
      lb_leaderboard = leaderboard_entries s\<rparr>"

definition get_all_time_leaderboard :: "state \<Rightarrow> entry list" where
  "get_all_time_leaderboard s =
     add_rank (sort_desc snd
       (map (\<lambda>player. (player, tm_get (all_time_xp s) player 0))
          (player_list s)))"

record my_score =
  ms_address :: string
  this_week_xp :: nat
  lifetime_xp :: nat

text \<open>
  \<open>Address(player_address)\<close> is the library's constructor; it is the parameter
  \<open>mk_address\<close>, which returns \<open>None\<close> where the constructor raises.
\<close>

definition get_my_score :: "(string \<Rightarrow> address option) \<Rightarrow> state \<Rightarrow> string \<Rightarrow> error + my_score" where
  "get_my_score mk_address s player_address =
     (case mk_address player_address of
        None \<Rightarrow> Inl ValueError
      | Some addr \<Rightarrow>
          Inr \<lparr>ms_address = player_address,
               this_week_xp = tm_get (scores s) addr 0,
               lifetime_xp = tm_get (all_time_xp s) addr 0\<rparr>)"

subsection \<open>Sequences of calls\<close>

text \<open>
  A call of a write method, with the message and the oracle outcomes it meets.
  A step takes the fields to what the call leaves, also when the call fails.
\<close>

datatype call =
    OpenRound message "error + json"
  | SubmitArgument message string string
  | JudgeAll message score_oracle

fun step :: "call \<Rightarrow> state \<Rightarrow> state" where
  "step (OpenRound msg topic_oracle) s = fst (open_round msg topic_oracle s)"
| "step (SubmitArgument msg side argument) s = fst (submit_argument msg side argument s)"
| "step (JudgeAll msg oracle) s = fst (judge_all msg oracle s)"

definition run :: "call list \<Rightarrow> state \<Rightarrow> state" where
  "run calls s = fold step calls s"

text \<open>
  The states a deployed contract can be in: the fields after the constructor, and
  the fields after any call in such a state. A failed call that is taken to
  change nothing stays in the state it started from, which is among these.
\<close>

inductive reachable :: "state \<Rightarrow> bool" where
  reachable_init: "reachable (init msg)"
| reachable_step: "reachable s \<Longrightarrow> reachable (step c s)"

text \<open>
  What holds of the roster in every reachable state (\<open>reachable_roster_inv\<close>): it
  has no address twice, its addresses are the keys of \<open>submissions\<close>, no stored
  submission is the empty string, and once the round is closed every roster
  address has a score.
\<close>

definition roster_inv :: "state \<Rightarrow> bool" where
  "roster_inv s \<longleftrightarrow>
     distinct (player_list s) \<and> dom (submissions s) = set (player_list s)
     \<and> (\<forall>p. submissions s p \<noteq> Some '''')
     \<and> (\<not> round_open s \<longrightarrow> set (player_list s) \<subseteq> dom (scores s))"

subsection \<open>A concrete round, used to exercise the theorems\<close>

text \<open>
  The host is account 1; accounts 2 and 3 are players. Two timestamps of ISO week
  2025-W10 and one of the following week.
\<close>

definition ex_host_msg :: message where
  "ex_host_msg = \<lparr>sender_address = 1, datetime = ''2025-03-05T12:00:00Z''\<rparr>"

definition ex_same_week_msg :: message where
  "ex_same_week_msg = \<lparr>sender_address = 1, datetime = ''2025-03-07T09:30:00Z''\<rparr>"

definition ex_next_week_msg :: message where
  "ex_next_week_msg = \<lparr>sender_address = 1, datetime = ''2025-03-12T12:00:00Z''\<rparr>"

definition ex_alice_msg :: message where
  "ex_alice_msg = \<lparr>sender_address = 2, datetime = ''2025-03-05T13:00:00Z''\<rparr>"

definition ex_bob_msg :: message where
  "ex_bob_msg = \<lparr>sender_address = 3, datetime = ''2025-03-05T14:00:00Z''\<rparr>"

definition ex_topic :: "error + json" where
  "ex_topic = Inr (JObj [(''side_a'', JStr ''Tabs''), (''side_b'', JStr ''Spaces''),
                         (''topic'', JStr ''Tabs or spaces'')])"

definition ex_text :: "nat \<Rightarrow> string" where
  "ex_text n = replicate n (CHR ''x'')"

text \<open>The state after the host has opened the round of 2025-W10.\<close>

definition ex_opened :: state where
  "ex_opened =
     \<lparr>current_week = ''2025-W10'', current_topic = ''Tabs or spaces'',
      current_side_a = ''Tabs'', current_side_b = ''Spaces'',
      submissions = Map.empty, scores = Map.empty, all_time_xp = Map.empty,
      player_list = [], round_open = True, judging_done = False, host = 1\<rparr>"

text \<open>Then account 2 argues side a with 25 characters, account 3 side b with 30.\<close>

definition ex_one_player :: state where
  "ex_one_player =
     ex_opened\<lparr>submissions := [2 \<mapsto> ''SIDE_A::'' @ ex_text 25], player_list := [2]\<rparr>"

definition ex_two_players :: state where
  "ex_two_players =
     ex_opened\<lparr>submissions := [2 \<mapsto> ''SIDE_A::'' @ ex_text 25, 3 \<mapsto> ''SIDE_B::'' @ ex_text 30],
               player_list := [2, 3]\<rparr>"

definition ex_calls_two_players :: "call list" where
  "ex_calls_two_players =
     [OpenRound ex_host_msg ex_topic,
      SubmitArgument ex_alice_msg ''a'' (ex_text 25),
      SubmitArgument ex_bob_msg ''b'' (ex_text 30)]"

text \<open>Scoring oracles: every answer has total 50; the second call is rejected;
  every answer lacks \<open>total\<close>; every answer is not JSON.\<close>

definition ex_oracle_50 :: score_oracle where
  "ex_oracle_50 k req = Inr (Some (JObj [(''logic'', JInt 20), (''creativity'', JInt 15),
     (''persuasiveness'', JInt 15), (''total'', JInt 50), (''one_line_feedback'', JStr ''Fine.'')]))"




text \<open>The round judged with total 50 for both, and the next week's round opened after it.\<close>

definition ex_judged :: state where
  "ex_judged =
     ex_two_players\<lparr>scores := [2 \<mapsto> 50, 3 \<mapsto> 50], all_time_xp := [2 \<mapsto> 50, 3 \<mapsto> 50],
                    round_open := False, judging_done := True\<rparr>"

definition ex_second_round :: state where
  "ex_second_round =
     \<lparr>current_week = ''2025-W11'', current_topic = ''Tabs or spaces'',
      current_side_a = ''Tabs'', current_side_b = ''Spaces'',
      submissions = Map.empty, scores = Map.empty, all_time_xp = [2 \<mapsto> 50, 3 \<mapsto> 50],
      player_list = [], round_open = True, judging_done = False, host = 1\<rparr>"

text \<open>A judged round with a tie: accounts 2 and 4 have 50, account 3 has 70.\<close>

definition ex_tied :: state where
  "ex_tied =
     ex_judged\<lparr>scores := [2 \<mapsto> 50, 3 \<mapsto> 70, 4 \<mapsto> 50], player_list := [2, 3, 4]\<rparr>"

definition ex_mk_address :: "string \<Rightarrow> address option" where
  "ex_mk_address str =
     (if str = ''0x0000000000000000000000000000000000000002'' then Some 2 else None)"

section \<open>Basic facts\<close>

subsection \<open>Outcomes of \<open>judge_all\<close>\<close>

lemma judge_all_success:
  "judge_all msg oracle s = (s', Inr r) \<Longrightarrow>
     sender_address msg = host s \<and> round_open s \<and> \<not> judging_done s \<and> player_list s \<noteq> []
     \<and> (\<exists>s''. judge_loop oracle 0 (current_topic s) (current_side_a s) (current_side_b s)
                 (player_list s) s = (s'', None)
              \<and> s' = s''\<lparr>round_open := False, judging_done := True\<rparr>)"
  by (auto simp add: judge_all_def
      split: if_splits prod.splits sum.splits option.splits)

lemma judge_all_failed:
  assumes "judge_all msg oracle s = (s', Inl e)"
  shows "(sender_address msg \<noteq> host s \<or> \<not> round_open s \<or> judging_done s \<or> player_list s = [])
           \<and> s' = s
       \<or> sender_address msg = host s \<and> round_open s \<and> \<not> judging_done s \<and> player_list s \<noteq> []
           \<and> judge_loop oracle 0 (current_topic s) (current_side_a s) (current_side_b s)
                 (player_list s) s = (s', Some e)"
  using assms
  by (auto simp add: judge_all_def split: if_splits prod.splits option.splits)

subsection \<open>The judging loop\<close>

lemma judge_loop_frame:
  "judge_loop oracle k T A B ps s = (s', r) \<Longrightarrow>
     current_week s' = current_week s \<and> current_topic s' = current_topic s
   \<and> current_side_a s' = current_side_a s \<and> current_side_b s' = current_side_b s
   \<and> submissions s' = submissions s \<and> player_list s' = player_list s
   \<and> round_open s' = round_open s \<and> judging_done s' = judging_done s \<and> host s' = host s
   \<and> state.more s' = state.more s"
proof (induction ps arbitrary: k s)
  case Nil
  then show ?case by simp
next
  case (Cons p rest)
  from Cons.prems show ?case
    by (auto simp add: Let_def split: if_splits sum.splits option.splits dest!: Cons.IH)
qed

lemma judge_loop_others:
  "judge_loop oracle k T A B ps s = (s', r) \<Longrightarrow> p \<notin> set ps \<Longrightarrow>
     scores s' p = scores s p \<and> all_time_xp s' p = all_time_xp s p"
proof (induction ps arbitrary: k s)
  case Nil
  then show ?case by simp
next
  case (Cons q rest)
  from Cons.prems show ?case
    by (auto simp add: Let_def split: if_splits sum.splits option.splits dest!: Cons.IH)
qed

lemma judge_loop_mono:
  "judge_loop oracle k T A B ps s = (s', r) \<Longrightarrow>
     tm_get (all_time_xp s) p 0 \<le> tm_get (all_time_xp s') p 0
   \<and> (all_time_xp s p \<noteq> None \<longrightarrow> all_time_xp s' p \<noteq> None)"
proof (induction ps arbitrary: k s)
  case Nil
  then show ?case by simp
next
  case (Cons q rest)
  from Cons.prems show ?case
    by (fastforce simp add: Let_def tm_get_def split: if_splits sum.splits option.splits dest!: Cons.IH)
qed

lemma judge_loop_scored:
  "judge_loop oracle k T A B ps s = (s', None) \<Longrightarrow> distinct ps \<Longrightarrow>
   \<forall>p \<in> set ps. tm_get (submissions s) p '''' \<noteq> '''' \<Longrightarrow> i < length ps \<Longrightarrow>
     \<exists>scored xp.
        oracle (k + i) (request_of T A B (tm_get (submissions s) (ps ! i) '''')) = Inr (Some scored)
      \<and> xp_of_scored scored = Inr xp
      \<and> scores s' (ps ! i) = Some xp
      \<and> all_time_xp s' (ps ! i) = Some (tm_get (all_time_xp s) (ps ! i) 0 + xp)"
proof (induction ps arbitrary: k s i)
  case Nil
  then show ?case by simp
next
  case (Cons p rest)
  from Cons.prems(3) have ne: "tm_get (submissions s) p '''' \<noteq> ''''" by simp
  from Cons.prems(1) ne obtain scored xp where
    orc: "oracle k (request_of T A B (tm_get (submissions s) p '''')) = Inr (Some scored)"
    and xp: "xp_of_scored scored = Inr xp"
    and rest: "judge_loop oracle (Suc k) T A B rest
                 (s\<lparr>scores := (scores s)(p \<mapsto> xp),
                    all_time_xp := (all_time_xp s)(p \<mapsto> tm_get (all_time_xp s) p 0 + xp)\<rparr>)
               = (s', None)"
    by (auto simp add: Let_def split: if_splits sum.splits option.splits)
  let ?s2 = "s\<lparr>scores := (scores s)(p \<mapsto> xp),
                all_time_xp := (all_time_xp s)(p \<mapsto> tm_get (all_time_xp s) p 0 + xp)\<rparr>"
  show ?case
  proof (cases i)
    case 0
    from Cons.prems(2) have "p \<notin> set rest" by simp
    from judge_loop_others [OF rest this] orc xp 0 show ?thesis by simp
  next
    case (Suc j)
    with Cons.prems have j: "j < length rest" and d: "distinct rest"
      and n: "\<forall>q \<in> set rest. tm_get (submissions ?s2) q '''' \<noteq> ''''" by simp_all
    from Cons.prems(2) j have neq: "rest ! j \<noteq> p" by auto
    from Cons.IH [OF rest d n j] neq Suc show ?thesis by (simp add: tm_get_def)
  qed
qed




subsection \<open>The concrete round\<close>

lemma pop_all_empty: "pop_all xs = []"
proof (induction xs rule: pop_all.induct)
  case (1 xs)
  then show ?case by (subst pop_all.simps) simp
qed

lemma ascii_upper_a: "ascii_upper (CHR ''a'') = CHR ''A''"
  by code_simp

lemma ascii_upper_b: "ascii_upper (CHR ''b'') = CHR ''B''"
  by code_simp

lemma week_of_ex_host: "week_of (datetime ex_host_msg) = Inr ''2025-W10''"
  unfolding ex_host_msg_def by code_simp

lemma week_of_ex_same_week: "week_of (datetime ex_same_week_msg) = Inr ''2025-W10''"
  unfolding ex_same_week_msg_def by code_simp

lemma week_of_ex_next_week: "week_of (datetime ex_next_week_msg) = Inr ''2025-W11''"
  unfolding ex_next_week_msg_def by code_simp

lemma ex_open_round:
  "open_round ex_host_msg ex_topic (init ex_host_msg)
     = (ex_opened, Inr ''Round 2025-W10 opened! Topic: Tabs or spaces'')"
  by (simp add: open_round_def week_of_ex_host
      init_def ex_topic_def topic_field_def ex_opened_def pop_all_empty Let_def)
     (simp add: ex_host_msg_def)

lemma ex_submit_alice:
  "submit_argument ex_alice_msg ''a'' (ex_text 25) ex_opened
     = (ex_one_player,
        Inr ''Argument submitted! Wait for the host to call judge_all().'')"
  by (simp add: submit_argument_def
      ex_opened_def ex_one_player_def ex_alice_msg_def ex_text_def ascii_upper_a ascii_upper_b Let_def)

lemma ex_submit_bob:
  "submit_argument ex_bob_msg ''b'' (ex_text 30) ex_one_player
     = (ex_two_players, Inr ''Argument submitted! Wait for the host to call judge_all().'')"
  by (simp add: submit_argument_def
      ex_opened_def ex_one_player_def ex_two_players_def ex_bob_msg_def ex_text_def ascii_upper_a ascii_upper_b Let_def)

lemma ex_run_two_players: "run ex_calls_two_players (init ex_host_msg) = ex_two_players"
  by (simp add: run_def ex_calls_two_players_def ex_open_round ex_submit_alice ex_submit_bob)

lemma ex_judge_50:
  "judge_all ex_host_msg ex_oracle_50 ex_two_players
     = (ex_judged, Inr ''Judging complete! Call get_leaderboard() to see results.'')"
  by (simp add: judge_all_def ex_two_players_def
      ex_opened_def ex_host_msg_def ex_oracle_50_def ex_judged_def tm_get_def xp_of_scored_def
      py_int_def ex_text_def Let_def)

lemma ex_open_second_round:
  "open_round ex_next_week_msg ex_topic ex_judged
     = (ex_second_round, Inr ''Round 2025-W11 opened! Topic: Tabs or spaces'')"
  by (simp add: open_round_def week_of_ex_next_week
      ex_topic_def topic_field_def ex_judged_def ex_two_players_def ex_opened_def
      ex_second_round_def pop_all_empty Let_def)
     (simp add: ex_next_week_msg_def)

lemma length_ex_text: "length (ex_text n) = n"
  by (simp add: ex_text_def)


subsection \<open>Opening a round\<close>

lemma clear_round_frame:
  "clear_round ps s = (s', r) \<Longrightarrow>
     current_week s' = current_week s \<and> current_topic s' = current_topic s
   \<and> current_side_a s' = current_side_a s \<and> current_side_b s' = current_side_b s
   \<and> all_time_xp s' = all_time_xp s \<and> player_list s' = player_list s
   \<and> round_open s' = round_open s \<and> judging_done s' = judging_done s \<and> host s' = host s"
  by (induction ps arbitrary: s) (auto simp add: Let_def split: option.splits)

lemma clear_round_cleared:
  "clear_round ps s = (s', None) \<Longrightarrow>
     submissions s' p = (if p \<in> set ps then None else submissions s p)
   \<and> scores s' p = (if p \<in> set ps then None else scores s p)"
  by (induction ps arbitrary: s) (auto simp add: Let_def split: option.splits)

lemma clear_round_ok:
  "distinct ps \<Longrightarrow> set ps \<subseteq> dom (submissions s) \<Longrightarrow> set ps \<subseteq> dom (scores s) \<Longrightarrow>
     \<exists>s'. clear_round ps s = (s', None)"
proof (induction ps arbitrary: s)
  case Nil
  then show ?case by simp
next
  case (Cons p rest)
  from Cons.prems obtain v x where v: "submissions s p = Some v" and x: "scores s p = Some x"
    by auto
  let ?s2 = "s\<lparr>submissions := (submissions s)(p := None), scores := (scores s)(p := None)\<rparr>"
  from Cons.prems have "distinct rest" "set rest \<subseteq> dom (submissions ?s2)"
    "set rest \<subseteq> dom (scores ?s2)" by auto
  from Cons.IH [OF this] obtain s' where "clear_round rest ?s2 = (s', None)" by blast
  with v x show ?case by (simp add: Let_def)
qed


lemma open_round_cases:
  obtains
    (early) w t a b e where
      "open_round msg topic_oracle s
         = (s\<lparr>current_week := w, current_topic := t, current_side_a := a, current_side_b := b\<rparr>,
            Inl e)"
  | (clearing) w t a b s5 r where
      "sender_address msg = host s" and "\<not> round_open s"
      and "week_of (datetime msg) = Inr w" and "w \<noteq> current_week s"
      and "clear_round (player_list s)
             (s\<lparr>current_week := w, current_topic := t, current_side_a := a,
                current_side_b := b\<rparr>) = (s5, r)"
      and "open_round msg topic_oracle s
             = (case r of
                  Some e \<Rightarrow> (s5, Inl e)
                | None \<Rightarrow>
                    (s5\<lparr>player_list := pop_all (player_list s5), round_open := True,
                        judging_done := False\<rparr>,
                     Inr (''Round '' @ w @ '' opened! Topic: '' @ current_topic s5)))"
proof -
  have same: "s = s\<lparr>current_week := current_week s, current_topic := current_topic s,
                    current_side_a := current_side_a s, current_side_b := current_side_b s\<rparr>"
    by simp
  show thesis
  proof (cases "sender_address msg = host s")
    case False
    then have "open_round msg topic_oracle s = (s, Inl Unauthorized)"
      by (simp add: open_round_def)
    with same early show thesis by metis
  next
    case 1: True
    show thesis
    proof (cases "round_open s")
      case True
      with 1 have "open_round msg topic_oracle s = (s, Inl RoundAlreadyOpen)"
        by (simp add: open_round_def)
      with same early show thesis by metis
    next
      case 2: False
      show thesis
      proof (cases "week_of (datetime msg)")
        case (Inl e)
        with 1 2 have "open_round msg topic_oracle s = (s, Inl e)"
          by (simp add: open_round_def)
        with same early show thesis by metis
      next
        case w: (Inr w)
        show thesis
        proof (cases "w = current_week s")
          case True
          with 1 2 w have "open_round msg topic_oracle s = (s, Inl PeriodAlreadyPlayed)"
            by (simp add: open_round_def)
          with same early show thesis by metis
        next
          case 3: False
          have s1: "s\<lparr>current_week := w\<rparr>
                      = s\<lparr>current_week := w, current_topic := current_topic s,
                          current_side_a := current_side_a s, current_side_b := current_side_b s\<rparr>"
            by simp
          show thesis
          proof (cases topic_oracle)
            case (Inl e)
            with 1 2 w 3 have "open_round msg topic_oracle s = (s\<lparr>current_week := w\<rparr>, Inl e)"
              by (simp add: open_round_def)
            with s1 early show thesis by metis
          next
            case td: (Inr topic_data)
            show thesis
            proof (cases "topic_field topic_data ''topic''")
              case (Inl e)
              with 1 2 w 3 td have "open_round msg topic_oracle s = (s\<lparr>current_week := w\<rparr>, Inl e)"
                by (simp add: open_round_def)
              with s1 early show thesis by metis
            next
              case t: (Inr t)
              have s2: "s\<lparr>current_week := w, current_topic := t\<rparr>
                      = s\<lparr>current_week := w, current_topic := t,
                          current_side_a := current_side_a s, current_side_b := current_side_b s\<rparr>"
                by simp
              show thesis
              proof (cases "topic_field topic_data ''side_a''")
                case (Inl e)
                with 1 2 w 3 td t have "open_round msg topic_oracle s
                    = (s\<lparr>current_week := w, current_topic := t\<rparr>, Inl e)"
                  by (simp add: open_round_def)
                with s2 early show thesis by metis
              next
                case a: (Inr a)
                have s3: "s\<lparr>current_week := w, current_topic := t, current_side_a := a\<rparr>
                      = s\<lparr>current_week := w, current_topic := t,
                          current_side_a := a, current_side_b := current_side_b s\<rparr>"
                  by simp
                show thesis
                proof (cases "topic_field topic_data ''side_b''")
                  case (Inl e)
                  with 1 2 w 3 td t a have "open_round msg topic_oracle s
                      = (s\<lparr>current_week := w, current_topic := t, current_side_a := a\<rparr>, Inl e)"
                    by (simp add: open_round_def)
                  with s3 early show thesis by metis
                next
                  case b: (Inr b)
                  let ?s4 = "s\<lparr>current_week := w, current_topic := t, current_side_a := a,
                                current_side_b := b\<rparr>"
                  obtain s5 r where c: "clear_round (player_list s) ?s4 = (s5, r)"
                    by (cases "clear_round (player_list s) ?s4") blast
                  from 1 2 w 3 td t a b c
                  have "open_round msg topic_oracle s
                          = (case r of
                               Some e \<Rightarrow> (s5, Inl e)
                             | None \<Rightarrow>
                                 (s5\<lparr>player_list := pop_all (player_list s5), round_open := True,
                                     judging_done := False\<rparr>,
                                  Inr (''Round '' @ w @ '' opened! Topic: '' @ current_topic s5)))"
                    by (simp add: open_round_def split: option.splits)
                  with 1 2 w 3 c clearing show thesis by blast
                qed
              qed
            qed
          qed
        qed
      qed
    qed
  qed
qed


lemma open_round_success:
  assumes "open_round msg topic_oracle s = (s', Inr r)"
  shows "sender_address msg = host s \<and> \<not> round_open s
       \<and> week_of (datetime msg) = Inr (current_week s') \<and> current_week s' \<noteq> current_week s
       \<and> player_list s' = [] \<and> round_open s' \<and> \<not> judging_done s' \<and> host s' = host s
       \<and> all_time_xp s' = all_time_xp s"
proof (cases rule: open_round_cases [of msg topic_oracle s])
  case (early w t a b e)
  with assms show ?thesis by simp
next
  case (clearing w t a b s5 r')
  show ?thesis
  proof (cases r')
    case (Some e)
    with clearing(6) assms show ?thesis by simp
  next
    case None
    with clearing(6) assms
    have s': "s' = s5\<lparr>player_list := pop_all (player_list s5), round_open := True,
                      judging_done := False\<rparr>" by simp
    from clear_round_frame [OF clearing(5)] clearing(1-4) show ?thesis
      unfolding s' by (simp add: pop_all_empty)
  qed
qed


lemma submit_argument_success:
  assumes "submit_argument msg side argument s = (s', Inr r)"
  shows "round_open s \<and> \<not> judging_done s \<and> side \<in> {''a'', ''b''}
       \<and> 20 \<le> length argument \<and> length argument \<le> 600
       \<and> s' = s\<lparr>player_list := (if submissions s (sender_address msg) = None
                                   then player_list s @ [sender_address msg] else player_list s),
                  submissions := (submissions s)
                    (sender_address msg \<mapsto> ''SIDE_'' @ map ascii_upper side @ ''::'' @ argument)\<rparr>"
  using assms
  by (auto simp add: submit_argument_def Let_def split: if_splits)


lemma judge_all_frame:
  "current_week (fst (judge_all msg oracle s)) = current_week s
   \<and> host (fst (judge_all msg oracle s)) = host s
   \<and> player_list (fst (judge_all msg oracle s)) = player_list s
   \<and> submissions (fst (judge_all msg oracle s)) = submissions s"
proof -
  obtain s'' r where
    loop: "judge_loop oracle 0 (current_topic s) (current_side_a s) (current_side_b s)
             (player_list s) s = (s'', r)"
    by (cases "judge_loop oracle 0 (current_topic s) (current_side_a s) (current_side_b s)
                 (player_list s) s") blast
  have "fst (judge_all msg oracle s) = s \<or> fst (judge_all msg oracle s) = s''
        \<or> fst (judge_all msg oracle s) = s''\<lparr>round_open := False, judging_done := True\<rparr>"
    using loop by (simp add: judge_all_def split: option.splits)
  with judge_loop_frame [OF loop] show ?thesis by auto
qed

lemma step_keeps_week:
  assumes "case c of OpenRound _ _ \<Rightarrow> False | _ \<Rightarrow> True"
  shows "current_week (step c s) = current_week s \<and> host (step c s) = host s"
proof (cases c)
  case (OpenRound msg topic_oracle)
  with assms show ?thesis by simp
next
  case (SubmitArgument msg side argument)
  then show ?thesis by (simp add: submit_argument_def Let_def)
next
  case (JudgeAll msg orc)
  then show ?thesis by (simp add: judge_all_frame)
qed

lemma run_keeps_week:
  "\<forall>c \<in> set calls. case c of OpenRound _ _ \<Rightarrow> False | _ \<Rightarrow> True \<Longrightarrow>
     current_week (run calls s) = current_week s \<and> host (run calls s) = host s"
proof (induction calls arbitrary: s)
  case Nil
  then show ?case by (simp add: run_def)
next
  case (Cons c calls)
  have r: "run (c # calls) s = run calls (step c s)" by (simp add: run_def)
  from Cons.prems have c: "case c of OpenRound _ _ \<Rightarrow> False | _ \<Rightarrow> True"
    and rest: "\<forall>c \<in> set calls. case c of OpenRound _ _ \<Rightarrow> False | _ \<Rightarrow> True" by simp_all
  from Cons.IH [OF rest, of "step c s"] step_keeps_week [OF c, of s] show ?case
    unfolding r by simp
qed


subsection \<open>The roster in every reachable state\<close>

lemma roster_inv_init: "roster_inv (init msg)"
  by (simp add: roster_inv_def init_def)

lemma roster_inv_open_round:
  assumes inv: "roster_inv s"
  shows "roster_inv (fst (open_round msg topic_oracle s))"
proof (cases rule: open_round_cases [of msg topic_oracle s])
  case (early w t a b e)
  then have "fst (open_round msg topic_oracle s)
               = s\<lparr>current_week := w, current_topic := t, current_side_a := a,
                    current_side_b := b\<rparr>" by simp
  moreover from inv
  have "roster_inv (s\<lparr>current_week := w, current_topic := t, current_side_a := a,
                       current_side_b := b\<rparr>)"
    by (simp add: roster_inv_def)
  ultimately show ?thesis by simp
next
  case (clearing w t a b s5 r)
  let ?s4 = "s\<lparr>current_week := w, current_topic := t, current_side_a := a, current_side_b := b\<rparr>"
  from inv have d: "distinct (player_list s)" by (simp add: roster_inv_def)
  from inv have eq: "dom (submissions s) = set (player_list s)" by (simp add: roster_inv_def)
  from inv clearing(2) have sc: "set (player_list s) \<subseteq> dom (scores s)"
    by (simp add: roster_inv_def)
  from eq have 1: "set (player_list s) \<subseteq> dom (submissions ?s4)" by simp
  from sc have 2: "set (player_list s) \<subseteq> dom (scores ?s4)" by simp
  from clear_round_ok [OF d 1 2] clearing(5) have r: "r = None" by auto
  with clearing(5) have c: "clear_round (player_list s) ?s4 = (s5, None)" by simp
  have "submissions s5 p = None" for p
  proof (cases "p \<in> set (player_list s)")
    case True
    with clear_round_cleared [OF c, of p] show ?thesis by simp
  next
    case False
    with eq have "p \<notin> dom (submissions s)" by simp
    then have "submissions s p = None" by (simp add: domIff)
    with False clear_round_cleared [OF c, of p] show ?thesis by simp
  qed
  then have empty: "submissions s5 = Map.empty" by (simp add: fun_eq_iff)
  from clearing(6) r
  have "fst (open_round msg topic_oracle s)
          = s5\<lparr>player_list := pop_all (player_list s5), round_open := True,
                judging_done := False\<rparr>" by simp
  moreover from empty
  have "roster_inv (s5\<lparr>player_list := pop_all (player_list s5), round_open := True,
                        judging_done := False\<rparr>)"
    by (simp add: roster_inv_def pop_all_empty)
  ultimately show ?thesis by simp
qed

lemma roster_inv_submit_argument:
  assumes "roster_inv s"
  shows "roster_inv (fst (submit_argument msg side argument s))"
  using assms by (auto simp add: roster_inv_def submit_argument_def Let_def)

lemma roster_inv_judge_all:
  assumes inv: "roster_inv s"
  shows "roster_inv (fst (judge_all msg oracle s))"
proof (cases "snd (judge_all msg oracle s)")
  case (Inl e)
  then have "judge_all msg oracle s = (fst (judge_all msg oracle s), Inl e)"
    by (simp add: prod_eq_iff)
  from judge_all_failed [OF this] show ?thesis
  proof
    assume "(sender_address msg \<noteq> host s \<or> \<not> round_open s \<or> judging_done s \<or> player_list s = [])
              \<and> fst (judge_all msg oracle s) = s"
    with inv show ?thesis by simp
  next
    assume "sender_address msg = host s \<and> round_open s \<and> \<not> judging_done s \<and> player_list s \<noteq> []
              \<and> judge_loop oracle 0 (current_topic s) (current_side_a s) (current_side_b s)
                    (player_list s) s = (fst (judge_all msg oracle s), Some e)"
    then have op: "round_open s"
      and loop: "judge_loop oracle 0 (current_topic s) (current_side_a s) (current_side_b s)
                   (player_list s) s = (fst (judge_all msg oracle s), Some e)" by simp_all
    from op judge_loop_frame [OF loop] inv show ?thesis by (simp add: roster_inv_def)
  qed
next
  case (Inr r)
  then have "judge_all msg oracle s = (fst (judge_all msg oracle s), Inr r)"
    by (simp add: prod_eq_iff)
  from judge_all_success [OF this] obtain s'' where
    loop: "judge_loop oracle 0 (current_topic s) (current_side_a s) (current_side_b s)
             (player_list s) s = (s'', None)"
    and s': "fst (judge_all msg oracle s) = s''\<lparr>round_open := False, judging_done := True\<rparr>"
    by blast
  from inv have d: "distinct (player_list s)"
    and ne: "\<forall>p \<in> set (player_list s). tm_get (submissions s) p '''' \<noteq> ''''"
    by (auto simp add: roster_inv_def tm_get_def split: option.splits)
  have "set (player_list s) \<subseteq> dom (scores s'')"
  proof
    fix p assume "p \<in> set (player_list s)"
    then obtain i where i: "i < length (player_list s)" and p: "player_list s ! i = p"
      by (auto simp add: in_set_conv_nth)
    from judge_loop_scored [OF loop d ne i] p show "p \<in> dom (scores s'')" by auto
  qed
  with judge_loop_frame [OF loop] inv show ?thesis
    unfolding s' by (simp add: roster_inv_def)
qed

lemma reachable_roster_inv: "reachable s \<Longrightarrow> roster_inv s"
proof (induction rule: reachable.induct)
  case (reachable_init msg)
  show ?case by (rule roster_inv_init)
next
  case (reachable_step s c)
  then show ?case
    by (cases c) (simp_all add: roster_inv_open_round roster_inv_submit_argument
        roster_inv_judge_all)
qed

lemma reachable_run: "reachable s \<Longrightarrow> reachable (run calls s)"
proof (induction calls arbitrary: s)
  case Nil
  then show ?case by (simp add: run_def)
next
  case (Cons c calls)
  have "run (c # calls) s = run calls (step c s)" by (simp add: run_def)
  with Cons.IH [OF reachable_step [OF Cons.prems]] show ?case by simp
qed

lemma ex_two_players_reachable: "reachable ex_two_players"
  using reachable_run [OF reachable_init, of ex_calls_two_players ex_host_msg]
  by (simp add: ex_run_two_players)


lemma ex_run_judged:
  "run (ex_calls_two_players @ [JudgeAll ex_host_msg ex_oracle_50]) (init ex_host_msg) = ex_judged"
proof -
  have "run (ex_calls_two_players @ [JudgeAll ex_host_msg ex_oracle_50]) (init ex_host_msg)
          = step (JudgeAll ex_host_msg ex_oracle_50) (run ex_calls_two_players (init ex_host_msg))"
    by (simp add: run_def)
  then show ?thesis by (simp add: ex_run_two_players ex_judge_50)
qed

lemma ex_run_second_round:
  "run (ex_calls_two_players
          @ [JudgeAll ex_host_msg ex_oracle_50, OpenRound ex_next_week_msg ex_topic])
       (init ex_host_msg) = ex_second_round"
proof -
  have "run (ex_calls_two_players
               @ [JudgeAll ex_host_msg ex_oracle_50, OpenRound ex_next_week_msg ex_topic])
            (init ex_host_msg)
          = step (OpenRound ex_next_week_msg ex_topic)
              (run (ex_calls_two_players @ [JudgeAll ex_host_msg ex_oracle_50]) (init ex_host_msg))"
    by (simp add: run_def)
  then show ?thesis by (simp add: ex_run_judged ex_open_second_round)
qed


lemma ex_resubmit_alice:
  "submit_argument ex_alice_msg ''b'' (ex_text 40) ex_two_players
     = (ex_two_players\<lparr>submissions :=
          [2 \<mapsto> ''SIDE_B::'' @ ex_text 40, 3 \<mapsto> ''SIDE_B::'' @ ex_text 30]\<rparr>,
        Inr ''Argument submitted! Wait for the host to call judge_all().'')"
  by (simp add: submit_argument_def ex_two_players_def ex_opened_def ex_alice_msg_def
      length_ex_text ascii_upper_a ascii_upper_b Let_def fun_upd_twist)

lemma reachable_judge_loop_pre:
  assumes "reachable s"
  shows "distinct (player_list s)
       \<and> (\<forall>p \<in> set (player_list s). tm_get (submissions s) p '''' \<noteq> '''')"
proof -
  from reachable_roster_inv [OF assms] have d: "distinct (player_list s)"
    and eq: "dom (submissions s) = set (player_list s)"
    and ne: "\<forall>p. submissions s p \<noteq> Some ''''"
    by (simp_all add: roster_inv_def)
  have "tm_get (submissions s) p '''' \<noteq> ''''" if "p \<in> set (player_list s)" for p
  proof -
    from that eq have "p \<in> dom (submissions s)" by simp
    then obtain v where v: "submissions s p = Some v" by blast
    with ne have "v \<noteq> ''''" by metis
    with v show ?thesis by (simp add: tm_get_def)
  qed
  with d show ?thesis by blast
qed




subsection \<open>Sorting and ranking\<close>

lemma ranked_pairs_from:
  "map (\<lambda>e. (e_address e, e_xp e))
     (map (\<lambda>(i, (a, x)). \<lparr>e_address = a, e_xp = x, e_rank = i + 1\<rparr>) (enumerate n xs)) = xs"
  by (induction xs arbitrary: n) auto

lemma ranked_ranks_from:
  "map e_rank (map (\<lambda>(i, (a, x)). \<lparr>e_address = a, e_xp = x, e_rank = i + 1\<rparr>) (enumerate n xs))
     = [Suc n..<Suc n + length xs]"
proof -
  have "e_rank \<circ> (\<lambda>(i, (a, x)). \<lparr>e_address = a, e_xp = x, e_rank = i + 1\<rparr>) = Suc \<circ> fst"
    by (auto simp add: fun_eq_iff)
  then have "map e_rank (map (\<lambda>(i, (a, x)). \<lparr>e_address = a, e_xp = x, e_rank = i + 1\<rparr>) (enumerate n xs))
          = map Suc (map fst (enumerate n xs))"
    by (simp only: map_map)
  also have "\<dots> = map Suc [n..<n + length xs]"
    by (simp only: map_fst_enumerate)
  also have "\<dots> = [Suc n..<Suc n + length xs]"
    by (simp add: map_Suc_upt)
  finally show ?thesis .
qed

lemma add_rank_pairs: "map (\<lambda>e. (e_address e, e_xp e)) (add_rank xs) = xs"
  unfolding add_rank_def by (rule ranked_pairs_from)

lemma add_rank_ranks: "map e_rank (add_rank xs) = [1..<Suc (length xs)]"
  unfolding add_rank_def using ranked_ranks_from [of 0 xs] by simp

lemma mset_sort_desc: "mset (sort_desc key xs) = mset xs"
  by (simp add: sort_desc_def)

lemma length_sort_desc: "length (sort_desc key xs) = length xs"
  by (simp add: sort_desc_def)

lemma sorted_sort_desc: "sorted_wrt (\<lambda>a b. key a \<ge> key b) (sort_desc key xs)"
proof -
  have "sorted (map (\<lambda>e. - int (key e)) (sort_desc key xs))"
    unfolding sort_desc_def by (rule sorted_sort_key)
  then show ?thesis by (simp add: sorted_map)
qed

lemma stable_sort_desc:
  "filter (\<lambda>e. key e = k) (sort_desc key xs) = filter (\<lambda>e. key e = k) xs"
proof -
  have "filter (\<lambda>e. - int (key e) = - int k) (sort_key (\<lambda>e. - int (key e)) xs)
          = filter (\<lambda>e. - int (key e) = - int k) xs"
    by (rule sort_key_stable)
  then show ?thesis by (simp add: sort_desc_def)
qed

lemma ex_tied_leaderboard:
  "lb_leaderboard (get_leaderboard ex_tied)
     = [\<lparr>e_address = 3, e_xp = 70, e_rank = 1\<rparr>,
        \<lparr>e_address = 2, e_xp = 50, e_rank = 2\<rparr>,
        \<lparr>e_address = 4, e_xp = 50, e_rank = 3\<rparr>]"
  by (simp add: get_leaderboard_def leaderboard_entries_def add_rank_def sort_desc_def
      ex_tied_def tm_get_def enumerate_simps)

subsection \<open>Lifetime scores along calls\<close>

lemma open_round_all_time:
  "all_time_xp (fst (open_round msg topic_oracle s)) = all_time_xp s"
proof -
  have clear: "\<And>ps s s' r. clear_round ps s = (s', r) \<Longrightarrow> all_time_xp s' = all_time_xp s"
  proof -
    fix ps s s' r
    show "clear_round ps s = (s', r) \<Longrightarrow> all_time_xp s' = all_time_xp s"
      by (induction ps arbitrary: s) (auto simp add: Let_def split: option.splits)
  qed
  show ?thesis
    by (auto simp add: open_round_def Let_def
        split: sum.splits prod.splits option.splits dest!: clear)
qed

lemma submit_argument_all_time:
  "all_time_xp (fst (submit_argument msg side argument s)) = all_time_xp s"
  by (simp add: submit_argument_def Let_def)

lemma judge_all_all_time:
  "tm_get (all_time_xp s) p 0 \<le> tm_get (all_time_xp (fst (judge_all msg oracle s))) p 0
   \<and> (all_time_xp s p \<noteq> None \<longrightarrow> all_time_xp (fst (judge_all msg oracle s)) p \<noteq> None)"
proof -
  obtain s'' r where
    loop: "judge_loop oracle 0 (current_topic s) (current_side_a s) (current_side_b s)
             (player_list s) s = (s'', r)"
    by (cases "judge_loop oracle 0 (current_topic s) (current_side_a s) (current_side_b s)
                 (player_list s) s") blast
  have "fst (judge_all msg oracle s) = s \<or> fst (judge_all msg oracle s) = s''
        \<or> fst (judge_all msg oracle s) = s''\<lparr>round_open := False, judging_done := True\<rparr>"
    using loop by (simp add: judge_all_def split: option.splits)
  with judge_loop_mono [OF loop, of p] show ?thesis by auto
qed

lemma step_all_time:
  "tm_get (all_time_xp s) p 0 \<le> tm_get (all_time_xp (step c s)) p 0
   \<and> (all_time_xp s p \<noteq> None \<longrightarrow> all_time_xp (step c s) p \<noteq> None)"
proof (cases c)
  case (OpenRound msg topic_oracle)
  then show ?thesis by (simp add: open_round_all_time)
next
  case (SubmitArgument msg side argument)
  then show ?thesis by (simp add: submit_argument_all_time)
next
  case (JudgeAll msg orc)
  then show ?thesis using judge_all_all_time [of s p msg orc] by simp
qed

lemma run_all_time:
  "tm_get (all_time_xp s) p 0 \<le> tm_get (all_time_xp (run calls s)) p 0
   \<and> (all_time_xp s p \<noteq> None \<longrightarrow> all_time_xp (run calls s) p \<noteq> None)"
proof (induction calls arbitrary: s)
  case Nil
  then show ?case by (simp add: run_def)
next
  case (Cons c calls)
  have r: "run (c # calls) s = run calls (step c s)" by (simp add: run_def)
  from step_all_time [of s p c] Cons.IH [of "step c s"] show ?case
    unfolding r by (meson order_trans)
qed

lemma xp_of_scored_bound: "xp_of_scored scored = Inr xp \<Longrightarrow> xp \<le> 100"
  by (auto simp add: xp_of_scored_def split: json.splits sum.splits)

lemma xp_of_scored_total:
  "xp_of_scored scored = Inr xp \<Longrightarrow> scored = JObj kvs \<Longrightarrow> map_of kvs ''total'' = Some (JInt t)
     \<Longrightarrow> int xp = min (max t 0) 100"
  by (auto simp add: xp_of_scored_def py_int_def)

section \<open>The claims\<close>

subsection \<open>C1: what a failed judging leaves behind\<close>




subsection \<open>C2: the all-time leaderboard after a new round\<close>

text \<open>
  C2 as claimed: \<open>get_all_time_leaderboard\<close> lists every address that has a
  lifetime score, also after a new round has been opened. The method iterates
  \<open>player_list\<close> (line 279), which \<open>open_round\<close> empties (lines 122 and 123), and
  not the keys of \<open>all_time_xp\<close>. After the round of the two players is judged
  with 50 each, the board lists accounts 2 and 3; after the host opens the round
  of the next week, both still have lifetime score 50 and the board is empty.
\<close>

theorem get_all_time_leaderboard_new_round:
  "run (ex_calls_two_players
          @ [JudgeAll ex_host_msg ex_oracle_50, OpenRound ex_next_week_msg ex_topic])
       (init ex_host_msg) = ex_second_round
   \<and> all_time_xp ex_second_round 2 = Some 50 \<and> all_time_xp ex_second_round 3 = Some 50
   \<and> get_all_time_leaderboard ex_judged
       = [\<lparr>e_address = 2, e_xp = 50, e_rank = 1\<rparr>, \<lparr>e_address = 3, e_xp = 50, e_rank = 2\<rparr>]
   \<and> get_all_time_leaderboard ex_second_round = []"
proof -
  have 1: "all_time_xp ex_second_round 2 = Some 50" and 2: "all_time_xp ex_second_round 3 = Some 50"
    by (simp_all add: ex_second_round_def)
  have 3: "get_all_time_leaderboard ex_judged
             = [\<lparr>e_address = 2, e_xp = 50, e_rank = 1\<rparr>, \<lparr>e_address = 3, e_xp = 50, e_rank = 2\<rparr>]"
    by (simp add: get_all_time_leaderboard_def add_rank_def sort_desc_def ex_judged_def
        ex_two_players_def ex_opened_def tm_get_def enumerate_simps)
  have 4: "get_all_time_leaderboard ex_second_round = []"
    by (simp add: get_all_time_leaderboard_def add_rank_def sort_desc_def ex_second_round_def)
  from ex_run_second_round 1 2 3 4 show ?thesis by simp
qed

subsection \<open>C3: an answer that is not JSON, and an answer without a total\<close>






subsection \<open>C4: judging an empty roster, and the round after judging\<close>

text \<open>
  C4. \<open>judge_all\<close> on an empty roster fails with \<open>NoSubmissions\<close> and changes
  nothing; the checks of lines 171 to 173 (caller is the host, round open, not yet
  judged) come before the roster check of line 174, so this is the outcome for the
  host on an open round. When \<open>judge_all\<close> succeeds, the round is afterwards not
  open and is judged, and a submission by anyone then fails with \<open>RoundNotOpen\<close>
  and changes nothing.
\<close>

theorem judge_all_lifecycle:
  "(player_list s = [] \<and> sender_address msg = host s \<and> round_open s \<and> \<not> judging_done s
      \<longrightarrow> judge_all msg oracle s = (s, Inl NoSubmissions))
   \<and> (judge_all msg oracle s = (s', Inr r)
      \<longrightarrow> \<not> round_open s' \<and> judging_done s'
          \<and> submit_argument msg' side argument s' = (s', Inl RoundNotOpen))"
proof (intro conjI impI)
  assume "player_list s = [] \<and> sender_address msg = host s \<and> round_open s \<and> \<not> judging_done s"
  then show "judge_all msg oracle s = (s, Inl NoSubmissions)"
    by (simp add: judge_all_def)
next
  assume ok: "judge_all msg oracle s = (s', Inr r)"
  from judge_all_success [OF ok] show "\<not> round_open s'" by auto
  from judge_all_success [OF ok] show "judging_done s'" by auto
  from judge_all_success [OF ok] have "\<not> round_open s'" by auto
  then show "submit_argument msg' side argument s' = (s', Inl RoundNotOpen)"
    by (simp add: submit_argument_def)
qed

theorem judge_all_lifecycle_witness:
  "player_list ex_opened = [] \<and> sender_address ex_host_msg = host ex_opened
   \<and> round_open ex_opened \<and> \<not> judging_done ex_opened
   \<and> judge_all ex_host_msg ex_oracle_50 ex_opened = (ex_opened, Inl NoSubmissions)
   \<and> judge_all ex_host_msg ex_oracle_50 ex_two_players
       = (ex_judged, Inr ''Judging complete! Call get_leaderboard() to see results.'')
   \<and> \<not> round_open ex_judged \<and> judging_done ex_judged
   \<and> submit_argument ex_alice_msg ''a'' (ex_text 25) ex_judged = (ex_judged, Inl RoundNotOpen)"
proof -
  have pre: "player_list ex_opened = [] \<and> sender_address ex_host_msg = host ex_opened
             \<and> round_open ex_opened \<and> \<not> judging_done ex_opened"
    by (simp add: ex_opened_def ex_host_msg_def)
  have a: "judge_all ex_host_msg ex_oracle_50 ex_opened = (ex_opened, Inl NoSubmissions)"
    using pre judge_all_lifecycle [of ex_opened ex_host_msg ex_oracle_50] by blast
  have b: "\<not> round_open ex_judged \<and> judging_done ex_judged
           \<and> submit_argument ex_alice_msg ''a'' (ex_text 25) ex_judged = (ex_judged, Inl RoundNotOpen)"
    using ex_judge_50 judge_all_lifecycle [of ex_two_players ex_host_msg ex_oracle_50 ex_judged
         "''Judging complete! Call get_leaderboard() to see results.''" ex_alice_msg "''a''" "ex_text 25"]
    by blast
  from pre a b ex_judge_50 show ?thesis by blast
qed

subsection \<open>C5: the scores a judging writes, and lifetime scores over time\<close>

text \<open>
  C5. When \<open>judge_all\<close> succeeds in a reachable state, then for every roster
  participant (the \<open>i\<close>-th of the roster, scored by the \<open>i\<close>-th scoring call) the
  answer was accepted and read as a score \<open>xp\<close> between 0 and 100, which for an
  integer \<open>total\<close> is that integer clamped into 0..100; the participant's period
  score is \<open>xp\<close>, and the lifetime score is the one before the call (0 when there
  was none) plus \<open>xp\<close>. For every address, every state and every sequence of
  calls of the three write methods, the lifetime score after the calls is at
  least the one before, and an entry of the lifetime scores is never removed;
  \<open>open_round\<close> leaves the lifetime scores as they are.
\<close>

theorem judge_all_scores:
  "(reachable s \<and> judge_all msg oracle s = (s', Inr r) \<and> i < length (player_list s) \<longrightarrow>
      (\<exists>scored xp.
          oracle i (request_of (current_topic s) (current_side_a s) (current_side_b s)
                      (tm_get (submissions s) (player_list s ! i) '''')) = Inr (Some scored)
        \<and> xp_of_scored scored = Inr xp \<and> xp \<le> 100
        \<and> (\<forall>kvs t. scored = JObj kvs \<and> map_of kvs ''total'' = Some (JInt t)
               \<longrightarrow> int xp = min (max t 0) 100)
        \<and> scores s' (player_list s ! i) = Some xp
        \<and> all_time_xp s' (player_list s ! i)
            = Some (tm_get (all_time_xp s) (player_list s ! i) 0 + xp)))
   \<and> tm_get (all_time_xp s0) p 0 \<le> tm_get (all_time_xp (run calls s0)) p 0
   \<and> (all_time_xp s0 p \<noteq> None \<longrightarrow> all_time_xp (run calls s0) p \<noteq> None)
   \<and> all_time_xp (fst (open_round msg' topic_oracle s0)) = all_time_xp s0"
proof (intro conjI impI)
  assume a: "reachable s \<and> judge_all msg oracle s = (s', Inr r) \<and> i < length (player_list s)"
  then have reach: "reachable s" and ok: "judge_all msg oracle s = (s', Inr r)"
    and i: "i < length (player_list s)" by simp_all
  from judge_all_success [OF ok] obtain s'' where
    loop: "judge_loop oracle 0 (current_topic s) (current_side_a s) (current_side_b s)
             (player_list s) s = (s'', None)"
    and s': "s' = s''\<lparr>round_open := False, judging_done := True\<rparr>"
    by blast
  from reachable_judge_loop_pre [OF reach] have d: "distinct (player_list s)"
    and ne: "\<forall>p \<in> set (player_list s). tm_get (submissions s) p '''' \<noteq> ''''" by simp_all
  from judge_loop_scored [OF loop d ne i] obtain scored xp where
    1: "oracle (0 + i) (request_of (current_topic s) (current_side_a s) (current_side_b s)
                      (tm_get (submissions s) (player_list s ! i) '''')) = Inr (Some scored)"
    and 2: "xp_of_scored scored = Inr xp"
    and 3: "scores s'' (player_list s ! i) = Some xp"
    and 4: "all_time_xp s'' (player_list s ! i)
              = Some (tm_get (all_time_xp s) (player_list s ! i) 0 + xp)"
    by blast
  from 2 have 5: "xp \<le> 100" by (rule xp_of_scored_bound)
  from 2 have 6: "\<forall>kvs t. scored = JObj kvs \<and> map_of kvs ''total'' = Some (JInt t)
                    \<longrightarrow> int xp = min (max t 0) 100"
    using xp_of_scored_total by blast
  from 3 s' have 7: "scores s' (player_list s ! i) = Some xp" by simp
  from 4 s' have 8: "all_time_xp s' (player_list s ! i)
                       = Some (tm_get (all_time_xp s) (player_list s ! i) 0 + xp)" by simp
  from 1 have 9: "oracle i (request_of (current_topic s) (current_side_a s) (current_side_b s)
                      (tm_get (submissions s) (player_list s ! i) '''')) = Inr (Some scored)"
    by simp
  from 9 2 5 6 7 8
  show "\<exists>scored xp.
          oracle i (request_of (current_topic s) (current_side_a s) (current_side_b s)
                      (tm_get (submissions s) (player_list s ! i) '''')) = Inr (Some scored)
        \<and> xp_of_scored scored = Inr xp \<and> xp \<le> 100
        \<and> (\<forall>kvs t. scored = JObj kvs \<and> map_of kvs ''total'' = Some (JInt t)
               \<longrightarrow> int xp = min (max t 0) 100)
        \<and> scores s' (player_list s ! i) = Some xp
        \<and> all_time_xp s' (player_list s ! i)
            = Some (tm_get (all_time_xp s) (player_list s ! i) 0 + xp)"
    by blast
next
  show "tm_get (all_time_xp s0) p 0 \<le> tm_get (all_time_xp (run calls s0)) p 0"
    using run_all_time [of s0 p calls] by blast
next
  assume "all_time_xp s0 p \<noteq> None"
  then show "all_time_xp (run calls s0) p \<noteq> None"
    using run_all_time [of s0 p calls] by blast
next
  show "all_time_xp (fst (open_round msg' topic_oracle s0)) = all_time_xp s0"
    by (rule open_round_all_time)
qed


text \<open>
  The round of the two players judged with total 50 for both, and the next
  week's round opened after it.
\<close>

theorem judge_all_scores_witness:
  "reachable ex_two_players
   \<and> judge_all ex_host_msg ex_oracle_50 ex_two_players
       = (ex_judged, Inr ''Judging complete! Call get_leaderboard() to see results.'')
   \<and> (0::nat) < length (player_list ex_two_players)
   \<and> (\<exists>scored xp.
          ex_oracle_50 0 (request_of (current_topic ex_two_players) (current_side_a ex_two_players)
                            (current_side_b ex_two_players)
                            (tm_get (submissions ex_two_players) (player_list ex_two_players ! 0) ''''))
            = Inr (Some scored)
        \<and> xp_of_scored scored = Inr xp \<and> xp \<le> 100
        \<and> (\<forall>kvs t. scored = JObj kvs \<and> map_of kvs ''total'' = Some (JInt t)
               \<longrightarrow> int xp = min (max t 0) 100)
        \<and> scores ex_judged (player_list ex_two_players ! 0) = Some xp
        \<and> all_time_xp ex_judged (player_list ex_two_players ! 0)
            = Some (tm_get (all_time_xp ex_two_players) (player_list ex_two_players ! 0) 0 + xp))
   \<and> player_list ex_two_players ! 0 = 2 \<and> scores ex_judged 2 = Some 50
   \<and> all_time_xp ex_judged 2 \<noteq> None
   \<and> tm_get (all_time_xp ex_judged) 2 0
       \<le> tm_get (all_time_xp (run [OpenRound ex_next_week_msg ex_topic] ex_judged)) 2 0
   \<and> all_time_xp (run [OpenRound ex_next_week_msg ex_topic] ex_judged) 2 \<noteq> None
   \<and> all_time_xp (fst (open_round ex_next_week_msg ex_topic ex_judged)) = all_time_xp ex_judged"
proof -
  note inst = judge_all_scores [of ex_two_players ex_host_msg ex_oracle_50 ex_judged
      "''Judging complete! Call get_leaderboard() to see results.''" 0
      ex_judged 2 "[OpenRound ex_next_week_msg ex_topic]" ex_next_week_msg ex_topic]
  have i: "(0::nat) < length (player_list ex_two_players)"
    by (simp add: ex_two_players_def ex_opened_def)
  have first: "player_list ex_two_players ! 0 = 2"
    by (simp add: ex_two_players_def ex_opened_def)
  have sc: "scores ex_judged 2 = Some 50"
    by (simp add: ex_judged_def)
  have lt: "all_time_xp ex_judged 2 \<noteq> None"
    by (simp add: ex_judged_def)
  from inst ex_two_players_reachable ex_judge_50 i
  have a: "\<exists>scored xp.
          ex_oracle_50 0 (request_of (current_topic ex_two_players) (current_side_a ex_two_players)
                            (current_side_b ex_two_players)
                            (tm_get (submissions ex_two_players) (player_list ex_two_players ! 0) ''''))
            = Inr (Some scored)
        \<and> xp_of_scored scored = Inr xp \<and> xp \<le> 100
        \<and> (\<forall>kvs t. scored = JObj kvs \<and> map_of kvs ''total'' = Some (JInt t)
               \<longrightarrow> int xp = min (max t 0) 100)
        \<and> scores ex_judged (player_list ex_two_players ! 0) = Some xp
        \<and> all_time_xp ex_judged (player_list ex_two_players ! 0)
            = Some (tm_get (all_time_xp ex_two_players) (player_list ex_two_players ! 0) 0 + xp)"
    by blast
  from inst have b: "tm_get (all_time_xp ex_judged) 2 0
       \<le> tm_get (all_time_xp (run [OpenRound ex_next_week_msg ex_topic] ex_judged)) 2 0"
    by blast
  from inst lt have c: "all_time_xp (run [OpenRound ex_next_week_msg ex_topic] ex_judged) 2 \<noteq> None"
    by blast
  from inst have d: "all_time_xp (fst (open_round ex_next_week_msg ex_topic ex_judged))
                       = all_time_xp ex_judged"
    by blast
  from ex_two_players_reachable ex_judge_50 i a first sc lt b c d show ?thesis by blast
qed

subsection \<open>C6: the period leaderboard\<close>

text \<open>
  C6. \<open>get_leaderboard\<close> pairs each roster participant with the period score
  (0 when there is none), sorts the pairs by score, highest first, keeps the
  roster order among equal scores (the participant who submitted first comes
  first), and numbers the entries from 1. In the statement: the ranked pairs
  are a permutation of the roster pairs, are sorted descending, agree with the
  roster pairs on the order of the entries of every score \<open>k\<close>, and the ranks are
  1, 2, ... up to the length of the roster.
\<close>

theorem get_leaderboard_ranking:
  "let pairs = map (\<lambda>player. (player, tm_get (scores s) player 0)) (player_list s);
       board = lb_leaderboard (get_leaderboard s);
       ranked = map (\<lambda>e. (e_address e, e_xp e)) board
   in mset ranked = mset pairs
    \<and> sorted_wrt (\<lambda>a b. snd a \<ge> snd b) ranked
    \<and> (\<forall>k. filter (\<lambda>e. snd e = k) ranked = filter (\<lambda>e. snd e = k) pairs)
    \<and> map e_rank board = [1..<Suc (length (player_list s))]"
proof -
  define pairs where "pairs = map (\<lambda>player. (player, tm_get (scores s) player 0)) (player_list s)"
  have board: "lb_leaderboard (get_leaderboard s) = add_rank (sort_desc snd pairs)"
    by (simp add: get_leaderboard_def leaderboard_entries_def pairs_def)
  have ranked: "map (\<lambda>e. (e_address e, e_xp e)) (lb_leaderboard (get_leaderboard s))
                  = sort_desc snd pairs"
    by (simp only: board add_rank_pairs)
  have 1: "mset (sort_desc snd pairs) = mset pairs"
    by (rule mset_sort_desc)
  have 2: "sorted_wrt (\<lambda>a b. snd a \<ge> snd b) (sort_desc snd pairs)"
    by (rule sorted_sort_desc)
  have 3: "\<forall>k. filter (\<lambda>e. snd e = k) (sort_desc snd pairs) = filter (\<lambda>e. snd e = k) pairs"
    by (simp add: stable_sort_desc)
  have 4: "map e_rank (lb_leaderboard (get_leaderboard s)) = [1..<Suc (length (player_list s))]"
    by (simp only: board add_rank_ranks length_sort_desc) (simp add: pairs_def)
  from 1 2 3 4 show ?thesis
    unfolding Let_def ranked pairs_def [symmetric] by blast
qed

subsection \<open>C7: one roster entry for each submitter\<close>

text \<open>
  C7. In every reachable state the roster has no address twice and its addresses
  are exactly the addresses with a stored submission, so its length is the
  number of distinct submitters of the round. A submission that is accepted
  stores the new text under the caller, replacing what the caller had stored
  before, and changes no other entry; the roster is unchanged when the caller is
  already in it, and otherwise gets the caller appended at its end, so the
  roster keeps the order of first submissions.
\<close>

theorem roster_distinct_submitters:
  assumes "reachable s"
  shows "distinct (player_list s) \<and> set (player_list s) = dom (submissions s)
       \<and> length (player_list s) = card (dom (submissions s))
       \<and> (submit_argument msg side argument s = (s', Inr r) \<longrightarrow>
            submissions s'
              = (submissions s)
                  (sender_address msg \<mapsto> ''SIDE_'' @ map ascii_upper side @ ''::'' @ argument)
          \<and> player_list s'
              = (if sender_address msg \<in> set (player_list s) then player_list s
                 else player_list s @ [sender_address msg]))"
proof -
  from reachable_roster_inv [OF assms] have d: "distinct (player_list s)"
    and eq: "dom (submissions s) = set (player_list s)"
    by (simp_all add: roster_inv_def)
  from d have "card (set (player_list s)) = length (player_list s)"
    by (rule distinct_card)
  with eq have len: "length (player_list s) = card (dom (submissions s))" by simp
  have step: "submissions s'
                = (submissions s)
                    (sender_address msg \<mapsto> ''SIDE_'' @ map ascii_upper side @ ''::'' @ argument)
            \<and> player_list s'
                = (if sender_address msg \<in> set (player_list s) then player_list s
                   else player_list s @ [sender_address msg])"
    if ok: "submit_argument msg side argument s = (s', Inr r)"
  proof -
    from eq have "sender_address msg \<in> set (player_list s)
                    \<longleftrightarrow> submissions s (sender_address msg) \<noteq> None"
      by (auto simp add: dom_def)
    with submit_argument_success [OF ok] show ?thesis by simp
  qed
  from d eq len step show ?thesis by simp
qed


text \<open>
  In the round of the two players, account 2 submits again, now for side b: its
  stored text is replaced and the roster stays \<open>[2, 3]\<close>.
\<close>

theorem roster_distinct_submitters_witness:
  "reachable ex_two_players
   \<and> submit_argument ex_alice_msg ''b'' (ex_text 40) ex_two_players
       = (ex_two_players\<lparr>submissions :=
            [2 \<mapsto> ''SIDE_B::'' @ ex_text 40, 3 \<mapsto> ''SIDE_B::'' @ ex_text 30]\<rparr>,
          Inr ''Argument submitted! Wait for the host to call judge_all().'')
   \<and> sender_address ex_alice_msg \<in> set (player_list ex_two_players)
   \<and> player_list (ex_two_players\<lparr>submissions :=
        [2 \<mapsto> ''SIDE_B::'' @ ex_text 40, 3 \<mapsto> ''SIDE_B::'' @ ex_text 30]\<rparr>)
       = player_list ex_two_players
   \<and> distinct (player_list ex_two_players)
   \<and> length (player_list ex_two_players) = card (dom (submissions ex_two_players))"
proof -
  let ?s' = "ex_two_players\<lparr>submissions :=
               [2 \<mapsto> ''SIDE_B::'' @ ex_text 40, 3 \<mapsto> ''SIDE_B::'' @ ex_text 30]\<rparr>"
  let ?r = "''Argument submitted! Wait for the host to call judge_all().''"
  have sender: "sender_address ex_alice_msg \<in> set (player_list ex_two_players)"
    by (simp add: ex_alice_msg_def ex_two_players_def ex_opened_def)
  note inst = roster_distinct_submitters [OF ex_two_players_reachable,
      of ex_alice_msg "''b''" "ex_text 40" ?s' ?r]
  from inst have d: "distinct (player_list ex_two_players)" by blast
  from inst have len: "length (player_list ex_two_players)
                         = card (dom (submissions ex_two_players))" by blast
  from inst ex_resubmit_alice
  have "player_list ?s'
          = (if sender_address ex_alice_msg \<in> set (player_list ex_two_players)
             then player_list ex_two_players
             else player_list ex_two_players @ [sender_address ex_alice_msg])" by blast
  with sender have pl: "player_list ?s' = player_list ex_two_players" by (simp only: if_True)
  from ex_two_players_reachable ex_resubmit_alice sender pl d len show ?thesis by blast
qed

subsection \<open>C8: what a submission is checked for\<close>

text \<open>
  C8. In an open round that is not judged, \<open>submit_argument\<close> rejects with
  \<open>InvalidSide\<close> unless the side is one of the two sides (the strings \<open>a\<close> and
  \<open>b\<close>); for a valid side it rejects with \<open>TextTooShort\<close> exactly when the text
  has fewer than 20 characters and with \<open>TextTooLong\<close> exactly when it has more
  than 600; otherwise it accepts and records the submission under the caller.
  So 19 characters are refused, 20 and 600 accepted, 601 refused.
\<close>

theorem submit_argument_validation:
  assumes "round_open s" and "\<not> judging_done s"
  shows "(side \<notin> {''a'', ''b''} \<longrightarrow> submit_argument msg side argument s = (s, Inl InvalidSide))
       \<and> (side \<in> {''a'', ''b''} \<longrightarrow>
            (snd (submit_argument msg side argument s) = Inl TextTooShort \<longleftrightarrow> length argument < 20)
          \<and> (snd (submit_argument msg side argument s) = Inl TextTooLong \<longleftrightarrow> length argument > 600)
          \<and> (20 \<le> length argument \<and> length argument \<le> 600 \<longrightarrow>
               snd (submit_argument msg side argument s)
                 = Inr ''Argument submitted! Wait for the host to call judge_all().''
             \<and> submissions (fst (submit_argument msg side argument s)) (sender_address msg)
                 = Some (''SIDE_'' @ map ascii_upper side @ ''::'' @ argument)))"
  using assms
  by (auto simp add: submit_argument_def Let_def)

theorem submit_argument_validation_witness:
  "round_open ex_opened \<and> \<not> judging_done ex_opened
   \<and> submit_argument ex_alice_msg ''A'' (ex_text 25) ex_opened = (ex_opened, Inl InvalidSide)
   \<and> snd (submit_argument ex_alice_msg ''a'' (ex_text 19) ex_opened) = Inl TextTooShort
   \<and> snd (submit_argument ex_alice_msg ''a'' (ex_text 20) ex_opened)
       = Inr ''Argument submitted! Wait for the host to call judge_all().''
   \<and> snd (submit_argument ex_alice_msg ''b'' (ex_text 600) ex_opened)
       = Inr ''Argument submitted! Wait for the host to call judge_all().''
   \<and> snd (submit_argument ex_alice_msg ''b'' (ex_text 601) ex_opened) = Inl TextTooLong"
proof -
  have op: "round_open ex_opened" and nj: "\<not> judging_done ex_opened"
    by (simp_all add: ex_opened_def)
  have sa: "''a'' \<in> {''a'', ''b''}" and sb: "''b'' \<in> {''a'', ''b''}"
    and sA: "''A'' \<notin> {''a'', ''b''}" by simp_all
  note v = submit_argument_validation [OF op nj]
  have 1: "submit_argument ex_alice_msg ''A'' (ex_text 25) ex_opened = (ex_opened, Inl InvalidSide)"
    using v [of "''A''" ex_alice_msg "ex_text 25"] sA by blast
  have 2: "snd (submit_argument ex_alice_msg ''a'' (ex_text 19) ex_opened) = Inl TextTooShort"
    using v [of "''a''" ex_alice_msg "ex_text 19"] sa by (simp add: length_ex_text)
  have 3: "snd (submit_argument ex_alice_msg ''a'' (ex_text 20) ex_opened)
             = Inr ''Argument submitted! Wait for the host to call judge_all().''"
    using v [of "''a''" ex_alice_msg "ex_text 20"] sa by (simp add: length_ex_text)
  have 4: "snd (submit_argument ex_alice_msg ''b'' (ex_text 600) ex_opened)
             = Inr ''Argument submitted! Wait for the host to call judge_all().''"
    using v [of "''b''" ex_alice_msg "ex_text 600"] sb by (simp add: length_ex_text)
  have 5: "snd (submit_argument ex_alice_msg ''b'' (ex_text 601) ex_opened) = Inl TextTooLong"
    using v [of "''b''" ex_alice_msg "ex_text 601"] sb by (simp add: length_ex_text)
  from op nj 1 2 3 4 5 show ?thesis by blast
qed

subsection \<open>C9: opening twice in one week\<close>

text \<open>
  C9 as claimed: a second \<open>open_round\<close> with a timestamp of the same week always
  fails with \<open>PeriodAlreadyPlayed\<close>. The week is compared on line 81, after the
  checks of the caller (line 65) and of the open round (line 66). Directly after
  the host has opened the round of 2025-W10, a second call of the host two days
  later in the same week fails with \<open>RoundAlreadyOpen\<close>.
\<close>

theorem open_round_twice_while_open:
  "open_round ex_host_msg ex_topic (init ex_host_msg)
     = (ex_opened, Inr ''Round 2025-W10 opened! Topic: Tabs or spaces'')
   \<and> week_of (datetime ex_same_week_msg) = week_of (datetime ex_host_msg)
   \<and> open_round ex_same_week_msg ex_topic ex_opened = (ex_opened, Inl RoundAlreadyOpen)"
proof -
  have "open_round ex_same_week_msg ex_topic ex_opened = (ex_opened, Inl RoundAlreadyOpen)"
    by (simp add: open_round_def ex_opened_def ex_same_week_msg_def)
  with ex_open_round week_of_ex_host week_of_ex_same_week show ?thesis by simp
qed


text \<open>
  C9, amended. After a successful \<open>open_round\<close> the round is open, and as long as
  only submissions and judging are called, a further \<open>open_round\<close> with a
  timestamp of the same week fails and changes nothing: with \<open>Unauthorized\<close>
  when the caller is not the host, with \<open>RoundAlreadyOpen\<close> while the round is
  open, and with \<open>PeriodAlreadyPlayed\<close> once the round is closed.
\<close>

theorem open_round_same_period:
  assumes first: "open_round msg1 topic1 s = (s1, Inr r1)"
    and same: "week_of (datetime msg2) = week_of (datetime msg1)"
    and between: "\<forall>c \<in> set calls. case c of OpenRound _ _ \<Rightarrow> False | _ \<Rightarrow> True"
  shows "round_open s1
       \<and> open_round msg2 topic2 (run calls s1)
           = (run calls s1,
              Inl (if sender_address msg2 \<noteq> host s then Unauthorized
                   else if round_open (run calls s1) then RoundAlreadyOpen
                   else PeriodAlreadyPlayed))"
proof -
  from open_round_success [OF first] have op: "round_open s1"
    and w: "week_of (datetime msg1) = Inr (current_week s1)" and h: "host s1 = host s"
    by simp_all
  from run_keeps_week [OF between, of s1] w h same
  have "week_of (datetime msg2) = Inr (current_week (run calls s1))"
    and "host (run calls s1) = host s" by simp_all
  then have "open_round msg2 topic2 (run calls s1)
           = (run calls s1,
              Inl (if sender_address msg2 \<noteq> host s then Unauthorized
                   else if round_open (run calls s1) then RoundAlreadyOpen
                   else PeriodAlreadyPlayed))"
    by (simp add: open_round_def)
  with op show ?thesis by simp
qed


text \<open>
  After the round of 2025-W10 is opened, played by the two players and judged,
  the host's second call in that week fails with \<open>PeriodAlreadyPlayed\<close>.
\<close>

theorem open_round_same_period_witness:
  "open_round ex_host_msg ex_topic (init ex_host_msg)
     = (ex_opened, Inr ''Round 2025-W10 opened! Topic: Tabs or spaces'')
   \<and> week_of (datetime ex_same_week_msg) = week_of (datetime ex_host_msg)
   \<and> run [SubmitArgument ex_alice_msg ''a'' (ex_text 25),
           SubmitArgument ex_bob_msg ''b'' (ex_text 30),
           JudgeAll ex_host_msg ex_oracle_50] ex_opened = ex_judged
   \<and> round_open ex_opened
   \<and> open_round ex_same_week_msg ex_topic ex_judged = (ex_judged, Inl PeriodAlreadyPlayed)"
proof -
  let ?calls = "[SubmitArgument ex_alice_msg ''a'' (ex_text 25),
                 SubmitArgument ex_bob_msg ''b'' (ex_text 30),
                 JudgeAll ex_host_msg ex_oracle_50]"
  have same: "week_of (datetime ex_same_week_msg) = week_of (datetime ex_host_msg)"
    by (simp add: week_of_ex_host week_of_ex_same_week)
  have between: "\<forall>c \<in> set ?calls. case c of OpenRound _ _ \<Rightarrow> False | _ \<Rightarrow> True"
    by simp
  have run: "run ?calls ex_opened = ex_judged"
    by (simp add: run_def ex_submit_alice ex_submit_bob ex_judge_50)
  have host: "sender_address ex_same_week_msg = host (init ex_host_msg)"
    by (simp add: ex_same_week_msg_def init_def ex_host_msg_def)
  have closed: "\<not> round_open ex_judged"
    by (simp add: ex_judged_def)
  from open_round_same_period [OF ex_open_round same between, of ex_topic] run host closed
  have "round_open ex_opened
        \<and> open_round ex_same_week_msg ex_topic ex_judged = (ex_judged, Inl PeriodAlreadyPlayed)"
    by simp
  with ex_open_round same run show ?thesis by simp
qed

subsection \<open>C10: the score of an address that was never scored\<close>

text \<open>
  C10. For every address that has no score in the current round and no lifetime
  score, \<open>get_my_score\<close> succeeds and returns period score 0 and lifetime score 0.
  It is a view: it returns a value and no state.
\<close>

theorem get_my_score_unscored:
  assumes "mk_address player_address = Some addr"
    and "scores s addr = None" and "all_time_xp s addr = None"
  shows "get_my_score mk_address s player_address
           = Inr \<lparr>ms_address = player_address, this_week_xp = 0, lifetime_xp = 0\<rparr>"
  using assms by (simp add: get_my_score_def tm_get_def)

theorem get_my_score_unscored_witness:
  "ex_mk_address ''0x0000000000000000000000000000000000000002'' = Some 2
   \<and> scores ex_two_players 2 = None \<and> all_time_xp ex_two_players 2 = None
   \<and> get_my_score ex_mk_address ex_two_players ''0x0000000000000000000000000000000000000002''
       = Inr \<lparr>ms_address = ''0x0000000000000000000000000000000000000002'',
              this_week_xp = 0, lifetime_xp = 0\<rparr>"
proof -
  have a: "ex_mk_address ''0x0000000000000000000000000000000000000002'' = Some 2"
    by (simp add: ex_mk_address_def)
  have b: "scores ex_two_players 2 = None" and c: "all_time_xp ex_two_players 2 = None"
    by (simp_all add: ex_two_players_def ex_opened_def)
  from a b c get_my_score_unscored [of ex_mk_address _ 2 ex_two_players, OF a b c]
  show ?thesis by simp
qed

end
